theory Spec2Isabelle
  imports Complex_Main "HOL-Library.Word" "HOL-Library.List_Lexorder"
begin

section \<open>Data model of scripts/snapshot.py\<close>

text \<open>
  Addresses are the hex strings the script handles. A Python \<open>dict\<close> (and a
  \<open>Counter\<close>) is an association list in insertion order with distinct keys; Python
  integers are unbounded, hence \<open>int\<close>. Every \<open>raise\<close> and every failing
  \<open>assert\<close> of the script is a value of \<open>error\<close>.
\<close>

type_synonym address = string

type_synonym 'v dict = "(address \<times> 'v) list"

datatype error =
    AssertionError string
  | ValueError
  | ZeroDivisionError
  | KeyError address
  | IndexError

record transfer =
  src :: address
  dst :: address
  wad :: int

text \<open>
  The chain is an external collaborator. \<open>Transfer_logs w c b\<close> are the Transfer events
  contract \<open>c\<close> emitted in block \<open>b\<close>, in log order; \<open>factory\<close> and \<open>getColor\<close> are the
  results of the two shape probes (\<open>None\<close> when the call raises \<open>ValueError\<close>).
\<close>

record world =
  Transfer_logs :: "address \<Rightarrow> nat \<Rightarrow> transfer list"
  factory :: "address \<Rightarrow> string option"
  getColor :: "address \<Rightarrow> string option"

definition DISTRIBUTION_AMOUNT :: int where
  "DISTRIBUTION_AMOUNT = 8000000 * 10 ^ 18"

definition START_BLOCK :: nat where
  "START_BLOCK = 10950650"

definition SNAPSHOT_BLOCK :: nat where
  "SNAPSHOT_BLOCK = 10954410"


definition UNISWAP_FACTORY :: string where
  "UNISWAP_FACTORY = ''0x5C69bEe701ef814a2B6a3EDD4B1652CB9cc5aA6f''"

definition ZERO_ADDRESS :: address where
  "ZERO_ADDRESS = ''0x0000000000000000000000000000000000000000''"

text \<open>\<open>encode_hex(encode_single('bytes32', b'BRONZE'))\<close>: the six bytes, right-padded.\<close>

definition BRONZE :: string where
  "BRONZE = ''0x42524f4e5a450000000000000000000000000000000000000000000000000000''"

text \<open>\<open>Wei('n ether')\<close>.\<close>

definition ether :: "int \<Rightarrow> int" where
  "ether n = n * 10 ^ 18"

subsection \<open>Dictionaries and counters\<close>

text \<open>\<open>c[k] += d\<close> on a \<open>Counter\<close>: a missing key reads as 0 and is appended.\<close>

fun counter_add :: "address \<Rightarrow> int \<Rightarrow> int dict \<Rightarrow> int dict" where
  "counter_add k d [] = [(k, d)]"
| "counter_add k d ((k', v) # kvs) =
     (if k = k' then (k', v + d) # kvs else (k', v) # counter_add k d kvs)"

text \<open>
  \<open>Counter.most_common()\<close> is \<open>sorted(items, key=itemgetter(1), reverse=True)\<close>:
  a stable sort by descending count.
\<close>

definition most_common :: "int dict \<Rightarrow> int dict" where
  "most_common d = sort_key (\<lambda>kv. - snd kv) d"

definition valfilter :: "('v \<Rightarrow> bool) \<Rightarrow> 'v dict \<Rightarrow> 'v dict" where
  "valfilter p d = filter (\<lambda>kv. p (snd kv)) d"

definition dict_values :: "'v dict \<Rightarrow> 'v list" where
  "dict_values d = map snd d"

definition dict_keys :: "'v dict \<Rightarrow> address list" where
  "dict_keys d = map fst d"

text \<open>\<open>d[k] = v\<close> on a \<open>dict\<close>.\<close>

fun dict_set :: "address \<Rightarrow> 'v \<Rightarrow> 'v dict \<Rightarrow> 'v dict" where
  "dict_set k v [] = [(k, v)]"
| "dict_set k v ((k', v') # kvs) =
     (if k = k' then (k', v) # kvs else (k', v') # dict_set k v kvs)"

text \<open>\<open>d.pop(k)\<close>, which raises \<open>KeyError\<close> on a missing key.\<close>

definition dict_pop :: "address \<Rightarrow> 'v dict \<Rightarrow> error + 'v dict" where
  "dict_pop k d =
     (if k \<in> set (dict_keys d) then Inr (filter (\<lambda>kv. fst kv \<noteq> k) d) else Inl (KeyError k))"


subsection \<open>Exact rationals\<close>

text \<open>\<open>Fraction(n, d)\<close> raises on a zero denominator; \<open>int(q)\<close> truncates towards zero.\<close>

definition Fraction :: "int \<Rightarrow> int \<Rightarrow> error + rat" where
  "Fraction n d = (if d = 0 then Inl ZeroDivisionError else Inr (Fract n d))"

definition py_int :: "rat \<Rightarrow> int" where
  "py_int q = (if q < 0 then - \<lfloor>- q\<rfloor> else \<lfloor>q\<rfloor>)"

text \<open>\<open>int(Fraction(n, d) * a)\<close>.\<close>

definition pro_rata_share :: "int \<Rightarrow> int \<Rightarrow> int \<Rightarrow> error + int" where
  "pro_rata_share n d a =
     (case Fraction n d of Inl e \<Rightarrow> Inl e | Inr q \<Rightarrow> Inr (py_int (q * of_int a)))"

text \<open>A dict comprehension whose value expression may raise: the first failure aborts.\<close>

fun dict_comprehension :: "(address \<Rightarrow> 'a \<Rightarrow> error + 'b) \<Rightarrow> 'a dict \<Rightarrow> error + 'b dict" where
  "dict_comprehension f [] = Inr []"
| "dict_comprehension f ((k, v) # kvs) =
     (case f k v of
        Inl e \<Rightarrow> Inl e
      | Inr y \<Rightarrow> (case dict_comprehension f kvs of
                   Inl e \<Rightarrow> Inl e
                 | Inr r \<Rightarrow> Inr ((k, y) # r)))"

section \<open>LedgerAggregator: transfers\_to\_balances and step\_01\<close>

text \<open>\<open>range(start, stop, step)\<close> for a positive step.\<close>

definition py_range :: "nat \<Rightarrow> nat \<Rightarrow> nat \<Rightarrow> nat list" where
  "py_range start stop step = map (\<lambda>k. start + k * step) [0..<(stop - start + (step - 1)) div step]"

text \<open>\<open>getLogs(fromBlock, toBlock)\<close>: both ends inclusive, in block order.\<close>

definition getLogs :: "world \<Rightarrow> address \<Rightarrow> nat \<Rightarrow> nat \<Rightarrow> transfer list" where
  "getLogs w address fromBlock toBlock =
     concat (map (Transfer_logs w address) [fromBlock..<Suc toBlock])"

text \<open>The body of \<open>for log in logs\<close> (the event is \<open>ev\<close> here).\<close>

definition apply_log :: "transfer \<Rightarrow> int dict \<Rightarrow> int dict" where
  "apply_log ev balances =
     (let balances = (if src ev \<noteq> ZERO_ADDRESS
                      then counter_add (src ev) (- wad ev) balances else balances)
      in if dst ev \<noteq> ZERO_ADDRESS
         then counter_add (dst ev) (wad ev) balances else balances)"

text \<open>The body of \<open>for start in trange(START_BLOCK, SNAPSHOT_BLOCK, 1000)\<close>.\<close>

definition fetch_batch :: "world \<Rightarrow> address \<Rightarrow> nat \<Rightarrow> int dict \<Rightarrow> int dict" where
  "fetch_batch w address start balances =
     (let end_block = min (start + 999) SNAPSHOT_BLOCK;
          logs = getLogs w address start end_block
      in fold apply_log logs balances)"

definition transfers_to_balances :: "world \<Rightarrow> address \<Rightarrow> int dict" where
  "transfers_to_balances w address =
     (let balances = fold (fetch_batch w address) (py_range START_BLOCK SNAPSHOT_BLOCK 1000) []
      in valfilter (\<lambda>v. v \<noteq> 0) (most_common balances))"





section \<open>IndirectHoldingResolver: step\_04\<close>

text \<open>The two shape probes: a raising call or a mismatch both mean "not a pool".\<close>

definition is_uniswap :: "world \<Rightarrow> address \<Rightarrow> bool" where
  "is_uniswap w address =
     (case factory w address of None \<Rightarrow> False | Some f \<Rightarrow> f = UNISWAP_FACTORY)"

definition is_balancer :: "world \<Rightarrow> address \<Rightarrow> bool" where
  "is_balancer w address =
     (case getColor w address of None \<Rightarrow> False | Some c \<Rightarrow> c = BRONZE)"

text \<open>
  Lines 176 to 179: the replacement of one pool from its share ledger \<open>balances\<close>,
  and the assertion on it; \<open>pool_value\<close> is \<open>contracts[address]\<close>.
\<close>

definition pool_split :: "int dict \<Rightarrow> int \<Rightarrow> int \<Rightarrow> error + int dict" where
  "pool_split balances supply pool_value =
     (case dict_comprehension (\<lambda>user share. pro_rata_share share supply pool_value) balances of
        Inl e \<Rightarrow> Inl e
      | Inr r \<Rightarrow>
          if sum_list (dict_values r) \<le> pool_value then Inr r
          else Inl (AssertionError ''no inflation ser''))"

text \<open>
  The loop \<open>for address in contracts\<close>. The two \<open>continue\<close> branches leave
  \<open>replacements\<close> as it is.
\<close>

fun step_04_loop :: "world \<Rightarrow> int dict \<Rightarrow> int dict dict \<Rightarrow> error + int dict dict" where
  "step_04_loop w [] replacements = Inr replacements"
| "step_04_loop w ((address, pool_value) # rest) replacements =
     (if \<not> (is_uniswap w address \<or> is_balancer w address)
      then step_04_loop w rest replacements
      else
        let balances = transfers_to_balances w address;
            supply = sum_list (dict_values balances)
        in if supply = 0 then step_04_loop w rest replacements
           else
             (case pool_split balances supply pool_value of
                Inl e \<Rightarrow> Inl e
              | Inr r \<Rightarrow> step_04_loop w rest (dict_set address r replacements)))"

definition step_04 :: "world \<Rightarrow> int dict \<Rightarrow> error + int dict dict" where
  "step_04 w contracts = step_04_loop w contracts []"

section \<open>BalanceMerger: step\_05\<close>

text \<open>\<open>balances.setdefault(user, 0); balances[user] += balance\<close> for every addition.\<close>

definition add_all :: "int dict \<Rightarrow> int dict \<Rightarrow> int dict" where
  "add_all additions balances = fold (\<lambda>ub. counter_add (fst ub) (snd ub)) additions balances"

fun step_05_loop :: "int dict \<Rightarrow> int dict dict \<Rightarrow> error + int dict" where
  "step_05_loop balances [] = Inr balances"
| "step_05_loop balances ((remove, additions) # rest) =
     (case dict_pop remove balances of
        Inl e \<Rightarrow> Inl e
      | Inr b \<Rightarrow> step_05_loop (add_all additions b) rest)"

definition step_05 :: "int dict \<Rightarrow> int dict dict \<Rightarrow> error + int dict" where
  "step_05 balances replacements =
     (case step_05_loop balances replacements of
        Inl e \<Rightarrow> Inl e
      | Inr b \<Rightarrow> Inr (most_common b))"

section \<open>ProRataAllocator: step\_06\<close>

text \<open>
  The body of \<open>step_06\<close> with its two constants as parameters: \<open>threshold\<close> is
  \<open>Wei('1 ether')\<close> and \<open>amount\<close> is \<open>DISTRIBUTION_AMOUNT\<close>. As in the script,
  \<open>total\<close> is summed before the filter is applied.
\<close>

definition pro_rata_distribution :: "int \<Rightarrow> int \<Rightarrow> int dict \<Rightarrow> error + int dict" where
  "pro_rata_distribution threshold amount balances =
     (let total = sum_list (dict_values balances);
          balances = valfilter (\<lambda>value. value \<ge> threshold) balances
      in case dict_comprehension (\<lambda>user balance. pro_rata_share balance total amount) balances of
           Inl e \<Rightarrow> Inl e
         | Inr pro_rata \<Rightarrow>
             if sum_list (dict_values pro_rata) \<le> amount then Inr pro_rata
             else Inl (AssertionError ''extravagant expenses ser''))"

definition step_06 :: "int dict \<Rightarrow> error + int dict" where
  "step_06 balances = pro_rata_distribution (ether 1) DISTRIBUTION_AMOUNT balances"

text \<open>
  The allocation as the specification words it, for comparison with \<open>step_06\<close>:
  \<open>floor(v/S * T)\<close> where \<open>S\<close> is the total value of the holders that remain after the
  threshold filter.
\<close>

definition post_filter_allocation :: "int \<Rightarrow> int \<Rightarrow> int dict \<Rightarrow> int dict" where
  "post_filter_allocation threshold amount balances =
     (let remaining = valfilter (\<lambda>v. threshold \<le> v) balances;
          S = sum_list (dict_values remaining)
      in map (\<lambda>uv. (fst uv, \<lfloor>Fract (snd uv) S * of_int amount\<rfloor>)) remaining)"

section \<open>MerkleCommitter: class MerkleTree\<close>

text \<open>
  Hashes and leaves are byte strings, compared as Python compares \<open>bytes\<close>
  (lexicographically). \<open>web3.keccak\<close> is a parameter of every operation: nothing
  below depends on which function it is.
\<close>

type_synonym bytes = "8 word list"

fun combined_hash :: "(bytes \<Rightarrow> bytes) \<Rightarrow> bytes option \<Rightarrow> bytes option \<Rightarrow> bytes option" where
  "combined_hash keccak None b = b"
| "combined_hash keccak (Some a) None = Some a"
| "combined_hash keccak (Some a) (Some b) = Some (keccak (concat (sort [a, b])))"

text \<open>\<open>xs[::2]\<close>; \<open>xs[1::2]\<close> is \<open>every_second (drop 1 xs)\<close>.\<close>

fun every_second :: "'a list \<Rightarrow> 'a list" where
  "every_second [] = []"
| "every_second [x] = [x]"
| "every_second (x # y # xs) = x # every_second xs"

fun zip_longest :: "'a list \<Rightarrow> 'b list \<Rightarrow> ('a option \<times> 'b option) list" where
  "zip_longest [] [] = []"
| "zip_longest (x # xs) [] = (Some x, None) # zip_longest xs []"
| "zip_longest [] (y # ys) = (None, Some y) # zip_longest [] ys"
| "zip_longest (x # xs) (y # ys) = (Some x, Some y) # zip_longest xs ys"

text \<open>
  The list comprehension of \<open>get_next_layer\<close>. \<open>zip_longest\<close> never yields a pair of
  two \<open>None\<close>, so \<open>combined_hash\<close> always returns a hash and \<open>map_filter\<close> drops
  nothing (\<open>length_get_next_layer\<close> below).
\<close>

definition get_next_layer :: "(bytes \<Rightarrow> bytes) \<Rightarrow> bytes list \<Rightarrow> bytes list" where
  "get_next_layer keccak elements =
     List.map_filter (\<lambda>ab. combined_hash keccak (fst ab) (snd ab))
       (zip_longest (every_second elements) (every_second (drop 1 elements)))"

lemma every_second_Cons: "every_second (b # xs) = b # every_second (drop 1 xs)"
  by (cases xs) simp_all

lemma get_next_layer_Nil [simp]: "get_next_layer keccak [] = []"
  by (simp add: get_next_layer_def)

lemma get_next_layer_single [simp]: "get_next_layer keccak [a] = [a]"
  by (simp add: get_next_layer_def)

lemma get_next_layer_pair [simp]:
  "get_next_layer keccak (a # b # xs) = keccak (concat (sort [a, b])) # get_next_layer keccak xs"
  unfolding get_next_layer_def
  by (simp add: every_second_Cons [of b xs] del: sort_key_simps)

lemma length_get_next_layer: "length (get_next_layer keccak xs) = (length xs + 1) div 2"
  by (induction xs rule: induct_list012) simp_all

text \<open>The \<open>while\<close> loop of \<open>get_layers\<close>.\<close>

function get_layers_loop :: "(bytes \<Rightarrow> bytes) \<Rightarrow> bytes list list \<Rightarrow> bytes list list" where
  "get_layers_loop keccak layers =
     (if length (last layers) > 1
      then get_layers_loop keccak (layers @ [get_next_layer keccak (last layers)])
      else layers)"
  by pat_completeness auto
termination get_layers_loop
  by (relation "measure (\<lambda>(keccak, layers). length (last layers))")
     (auto simp: length_get_next_layer)

definition get_layers :: "(bytes \<Rightarrow> bytes) \<Rightarrow> bytes list \<Rightarrow> bytes list list" where
  "get_layers keccak elements = get_layers_loop keccak [elements]"

text \<open>
  \<open>__init__\<close>. The leaves arrive as hex strings; here they are the byte strings
  \<open>hexstr=\<close> decodes them to.
\<close>

record MerkleTree =
  elements :: "bytes list"
  layers :: "bytes list list"

definition MerkleTree_init :: "(bytes \<Rightarrow> bytes) \<Rightarrow> bytes list \<Rightarrow> MerkleTree" where
  "MerkleTree_init keccak els =
     (let hashed = sort (remdups (map keccak els))
      in \<lparr>elements = hashed, layers = get_layers keccak hashed\<rparr>)"

text \<open>\<open>self.layers[-1][0]\<close>.\<close>

definition root :: "MerkleTree \<Rightarrow> error + bytes" where
  "root t =
     (case layers t of
        [] \<Rightarrow> Inl IndexError
      | _ # _ \<Rightarrow> (case last (layers t) of [] \<Rightarrow> Inl IndexError | h # _ \<Rightarrow> Inr h))"

text \<open>\<open>list.index\<close>, which raises \<open>ValueError\<close> when the element is absent.\<close>

fun index :: "'a list \<Rightarrow> 'a \<Rightarrow> error + nat" where
  "index [] y = Inl ValueError"
| "index (x # xs) y =
     (if x = y then Inr 0 else (case index xs y of Inl e \<Rightarrow> Inl e | Inr i \<Rightarrow> Inr (Suc i)))"

text \<open>
  The loop \<open>for layer in self.layers\<close> of \<open>get_proof\<close>; \<open>prf\<close> is the list
  \<open>proof\<close>. The siblings are kept as bytes (\<open>encode_hex\<close> only prints them).
\<close>

fun get_proof_loop :: "bytes list list \<Rightarrow> nat \<Rightarrow> bytes list \<Rightarrow> bytes list" where
  "get_proof_loop [] idx prf = prf"
| "get_proof_loop (layer # rest) idx prf =
     (let pair_idx = (if idx mod 2 = 0 then idx + 1 else idx - 1);
          prf = (if pair_idx < length layer then prf @ [layer ! pair_idx] else prf)
      in get_proof_loop rest (idx div 2) prf)"

definition get_proof :: "(bytes \<Rightarrow> bytes) \<Rightarrow> MerkleTree \<Rightarrow> bytes \<Rightarrow> error + bytes list" where
  "get_proof keccak t el =
     (case index (elements t) (keccak el) of
        Inl e \<Rightarrow> Inl e
      | Inr idx \<Rightarrow> Inr (get_proof_loop (layers t) idx []))"

text \<open>
  The verifier's walk, as the specification words it: starting from the leaf hash,
  each emitted sibling replaces the current hash by the hash of the sorted pair.
\<close>

definition walk_proof :: "(bytes \<Rightarrow> bytes) \<Rightarrow> bytes \<Rightarrow> bytes list \<Rightarrow> bytes" where
  "walk_proof keccak leaf prf = foldl (\<lambda>cur sibling. keccak (concat (sort [cur, sibling]))) leaf prf"

section \<open>Properties of the Merkle layers\<close>

text \<open>
  Claim C7. When a layer has an odd number of elements, its unpaired final element is
  carried to the next layer unchanged: the next layer is the pair hashes of the
  elements before it, followed by that element itself, once and not re-hashed.
\<close>

theorem get_next_layer_odd_carries_last:
  "odd (length xs) \<Longrightarrow>
     get_next_layer keccak xs = get_next_layer keccak (butlast xs) @ [last xs]
     \<and> length (get_next_layer keccak xs) = Suc (length xs div 2)"
proof (induction xs rule: induct_list012)
  case 1
  then show ?case by simp
next
  case (2 x)
  then show ?case by simp
next
  case (3 x y zs)
  then have "odd (length zs)" by simp
  then have "zs \<noteq> []" by auto
  with 3 show ?case by (simp add: length_get_next_layer)
qed

theorem get_next_layer_odd_carries_last_witness:
  "odd (length [[1::8 word], [2], [3]])
   \<and> get_next_layer (\<lambda>b. 7 # b) [[1::8 word], [2], [3]] = [[7, 1, 2], [3]]"
  using get_next_layer_odd_carries_last [of "[[1::8 word], [2], [3]]" "\<lambda>b. 7 # b"]
  by simp

section \<open>Properties of the ledger aggregation\<close>

lemma getLogs_append:
  "a \<le> Suc b \<Longrightarrow> b \<le> c \<Longrightarrow> getLogs w x a b @ getLogs w x (Suc b) c = getLogs w x a c"
proof -
  assume h: "a \<le> Suc b" "b \<le> c"
  have "[a..<Suc c] = [a..<Suc b] @ [Suc b..<Suc c]"
    using h by (metis Suc_le_mono le_add_diff_inverse upt_add_eq_append)
  then show ?thesis by (simp add: getLogs_def)
qed

lemma py_range_blocks:
  "py_range START_BLOCK SNAPSHOT_BLOCK 1000 = [10950650, 10951650, 10952650, 10953650]"
  by (simp add: py_range_def START_BLOCK_def SNAPSHOT_BLOCK_def upt_rec)

lemma transfers_to_balances_fold:
  "transfers_to_balances w address =
     valfilter (\<lambda>v. v \<noteq> 0)
       (most_common (fold apply_log (getLogs w address START_BLOCK SNAPSHOT_BLOCK) []))"
proof -
  have "fold (fetch_batch w address) (py_range START_BLOCK SNAPSHOT_BLOCK 1000) []
      = fold apply_log (getLogs w address 10950650 10951649 @ getLogs w address 10951650 10952649
           @ getLogs w address 10952650 10953649 @ getLogs w address 10953650 10954410) []"
    unfolding py_range_blocks by (simp add: fetch_batch_def SNAPSHOT_BLOCK_def)
  also have "getLogs w address 10950650 10951649 @ getLogs w address 10951650 10952649
           @ getLogs w address 10952650 10953649 @ getLogs w address 10953650 10954410
      = getLogs w address START_BLOCK SNAPSHOT_BLOCK"
    using getLogs_append [of 10952650 10953649 10954410 w address]
      getLogs_append [of 10951650 10952649 10954410 w address]
      getLogs_append [of 10950650 10951649 10954410 w address]
    by (simp add: START_BLOCK_def SNAPSHOT_BLOCK_def)
  finally show ?thesis
    by (simp add: transfers_to_balances_def)
qed

subsection \<open>The same loop with the batch length as a parameter\<close>








section \<open>Exact rational arithmetic in integers\<close>

lemma Fract_mult_of_int: "Fract n d * of_int a = Fract (n * a) d"
  by (simp add: of_int_rat)

lemma Fract_mult_numeral: "Fract n d * numeral k = Fract (n * numeral k) d"
  using Fract_mult_of_int [of n d "numeral k"] by simp

lemma Fract_neg_iff: "d \<noteq> 0 \<Longrightarrow> Fract p d < 0 \<longleftrightarrow> p * d < 0"
proof (cases "0 < d")
  case True
  then show ?thesis by (simp add: Fract_less_zero_iff mult_less_0_iff)
next
  case False
  assume "d \<noteq> 0"
  with False have neg: "0 < - d" by simp
  have "Fract p d = Fract (- p) (- d)" by simp
  also have "\<dots> < 0 \<longleftrightarrow> - p < 0" using neg by (rule Fract_less_zero_iff)
  finally show ?thesis using neg by (auto simp: mult_less_0_iff)
qed

lemma py_int_Fract:
  "d \<noteq> 0 \<Longrightarrow> py_int (Fract p d) = (if p * d < 0 then - ((- p) div d) else p div d)"
  by (simp add: py_int_def Fract_neg_iff floor_Fract)

lemma py_int_nonneg: "0 \<le> q \<Longrightarrow> py_int q = \<lfloor>q\<rfloor>"
  by (simp add: py_int_def)

text \<open>\<open>int(Fraction(n, d) * a)\<close> in integer arithmetic only.\<close>

lemma pro_rata_share_int:
  "pro_rata_share n d a =
     (if d = 0 then Inl ZeroDivisionError
      else Inr (if n * a * d < 0 then - ((- (n * a)) div d) else (n * a) div d))"
  by (simp add: pro_rata_share_def Fraction_def Fract_mult_of_int py_int_Fract)

lemma dict_comprehension_share:
  "dict_comprehension (\<lambda>user v. pro_rata_share v S T) d =
     (if S = 0 \<and> d \<noteq> [] then Inl ZeroDivisionError
      else Inr (map (\<lambda>uv. (fst uv, py_int (Fract (snd uv) S * of_int T))) d))"
  by (induction d) (auto simp: pro_rata_share_def Fraction_def)

lemma dict_values_valfilter: "dict_values (valfilter p d) = filter p (dict_values d)"
  by (simp add: dict_values_def valfilter_def filter_map comp_def)

lemma sum_list_filter_le:
  fixes xs :: "int list"
  shows "list_all (\<lambda>v. 0 \<le> v) xs \<Longrightarrow> sum_list (filter p xs) \<le> sum_list xs"
  by (induction xs) auto

lemma sum_list_div_mod:
  fixes S T :: int
  shows "S * sum_list (map (\<lambda>v. (v * T) div S) vs) + sum_list (map (\<lambda>v. (v * T) mod S) vs)
         = T * sum_list vs"
  by (induction vs) (auto simp: algebra_simps)

lemma share_values_nonneg:
  assumes "0 < S" "0 \<le> T" "list_all (\<lambda>v. 0 \<le> v) vs"
  shows "map (\<lambda>v. py_int (Fract v S * of_int T)) vs = map (\<lambda>v. (v * T) div S) vs"
proof (rule map_cong [OF refl])
  fix v assume "v \<in> set vs"
  with assms have "0 \<le> v * T" by (auto simp: list_all_iff)
  with assms(1) have "0 \<le> (v * T) * S" by (rule_tac mult_nonneg_nonneg) simp_all
  then have "\<not> v * T * S < 0" by simp
  with assms(1) show "py_int (Fract v S * of_int T) = (v * T) div S"
    by (simp add: Fract_mult_of_int py_int_Fract)
qed

section \<open>Properties of the pro-rata allocation\<close>

lemma pro_rata_distribution_eq:
  "pro_rata_distribution threshold amount balances =
     (let S = sum_list (dict_values balances);
          d = valfilter (\<lambda>v. threshold \<le> v) balances;
          r = map (\<lambda>uv. (fst uv, py_int (Fract (snd uv) S * of_int amount))) d
      in if S = 0 \<and> d \<noteq> [] then Inl ZeroDivisionError
         else if sum_list (dict_values r) \<le> amount then Inr r
         else Inl (AssertionError ''extravagant expenses ser''))"
  by (simp add: pro_rata_distribution_def dict_comprehension_share Let_def)

text \<open>
  Claim C1 fails as stated: the denominator is not recomputed after the dust
  exclusion. With one holder of 1 ether and one of 0.5 ether, \<open>step_06\<close> gives the
  first \<open>floor(1/1.5 * T)\<close>, where the post-exclusion total would give all of \<open>T\<close>.
\<close>

theorem step_06_denominator_counterexample:
  "step_06 [(''0xa'', ether 1), (''0xb'', 5 * 10 ^ 17)]
     = Inr [(''0xa'', 5333333333333333333333333)]
   \<and> post_filter_allocation (ether 1) DISTRIBUTION_AMOUNT
        [(''0xa'', ether 1), (''0xb'', 5 * 10 ^ 17)]
     = [(''0xa'', 8000000000000000000000000)]"
  by (simp add: step_06_def pro_rata_distribution_def pro_rata_share_int
      post_filter_allocation_def valfilter_def dict_values_def ether_def
      DISTRIBUTION_AMOUNT_def Fract_mult_numeral floor_Fract)

text \<open>
  Claim C1, amended. Whenever \<open>step_06\<close> returns, its output lists exactly the holders
  of at least 1 ether, in table order, each with \<open>int(v/S * T)\<close> where \<open>S\<close> is the total
  of the whole table, summed before the filter; when that total is positive this is
  \<open>floor(v/S * T)\<close>.
\<close>

theorem step_06_allocation_pre_filter_total:
  assumes "step_06 balances = Inr out"
  shows "out = map (\<lambda>uv. (fst uv, py_int (Fract (snd uv) (sum_list (dict_values balances))
                                          * of_int DISTRIBUTION_AMOUNT)))
                 (valfilter (\<lambda>v. ether 1 \<le> v) balances)
       \<and> (0 < sum_list (dict_values balances) \<longrightarrow>
            out = map (\<lambda>uv. (fst uv, \<lfloor>Fract (snd uv) (sum_list (dict_values balances))
                                      * of_int DISTRIBUTION_AMOUNT\<rfloor>))
                    (valfilter (\<lambda>v. ether 1 \<le> v) balances))"
proof -
  let ?S = "sum_list (dict_values balances)"
  let ?d = "valfilter (\<lambda>v. ether 1 \<le> v) balances"
  have out: "out = map (\<lambda>uv. (fst uv, py_int (Fract (snd uv) ?S * of_int DISTRIBUTION_AMOUNT))) ?d"
    using assms unfolding step_06_def pro_rata_distribution_eq Let_def
    by (auto split: if_splits)
  have fl: "py_int (Fract (snd uv) ?S * of_int DISTRIBUTION_AMOUNT)
            = \<lfloor>Fract (snd uv) ?S * of_int DISTRIBUTION_AMOUNT\<rfloor>"
    if "0 < ?S" "uv \<in> set ?d" for uv
  proof -
    from that have "0 \<le> snd uv" by (auto simp: valfilter_def ether_def)
    with that have "0 \<le> Fract (snd uv) ?S" by (simp add: zero_le_Fract_iff)
    moreover have "(0::rat) \<le> of_int DISTRIBUTION_AMOUNT" by (simp add: DISTRIBUTION_AMOUNT_def)
    ultimately show ?thesis by (intro py_int_nonneg mult_nonneg_nonneg)
  qed
  show ?thesis using out fl by auto
qed

theorem step_06_allocation_pre_filter_total_witness:
  "step_06 [(''0xa'', ether 3), (''0xb'', 5 * 10 ^ 17), (''0xc'', 5 * 10 ^ 17)]
     = Inr [(''0xa'', 6000000000000000000000000)]
   \<and> 0 < sum_list (dict_values [(''0xa'', ether 3), (''0xb'', 5 * 10 ^ 17), (''0xc'', 5 * 10 ^ 17)])
   \<and> [(''0xa'', 6000000000000000000000000)]
     = map (\<lambda>uv. (fst uv, \<lfloor>Fract (snd uv) (4 * 10 ^ 18) * of_int DISTRIBUTION_AMOUNT\<rfloor>))
         [(''0xa'', ether 3)]"
proof -
  let ?b = "[(''0xa'', ether 3), (''0xb'', 5 * 10 ^ 17), (''0xc'', 5 * 10 ^ 17)]"
  have ret: "step_06 ?b = Inr [(''0xa'', 6000000000000000000000000)]"
    by (simp add: step_06_def pro_rata_distribution_def pro_rata_share_int
        valfilter_def dict_values_def ether_def DISTRIBUTION_AMOUNT_def)
  have pos: "0 < sum_list (dict_values ?b)"
    by (simp add: dict_values_def ether_def)
  show ?thesis
    using step_06_allocation_pre_filter_total [OF ret] ret pos
    by (simp add: valfilter_def dict_values_def ether_def)
qed

text \<open>
  Claim C2 fails as stated. With holders of 1, 0.5 and 0.5 ether, the only remaining
  holder's share is exact (no remainder is lost to the floor), yet the outputs sum to
  \<open>T/2\<close>: the value of the excluded holders stays in the denominator.
\<close>

theorem step_06_sum_counterexample:
  "step_06 [(''0xa'', ether 1), (''0xb'', 5 * 10 ^ 17), (''0xc'', 5 * 10 ^ 17)]
     = Inr [(''0xa'', 4000000000000000000000000)]
   \<and> sum_list (dict_values [(''0xa'', 4000000000000000000000000)]) < DISTRIBUTION_AMOUNT
   \<and> DISTRIBUTION_AMOUNT mod ether 1 = 0
   \<and> (ether 1 * DISTRIBUTION_AMOUNT) mod ether 1 = 0
   \<and> (ether 1 * DISTRIBUTION_AMOUNT)
        mod sum_list (dict_values [(''0xa'', ether 1), (''0xb'', 5 * 10 ^ 17), (''0xc'', 5 * 10 ^ 17)])
      = 0"
  by (simp add: step_06_def pro_rata_distribution_def pro_rata_share_int
      valfilter_def dict_values_def ether_def DISTRIBUTION_AMOUNT_def)

text \<open>
  Claim C2, amended. Whatever the table, an output that is returned sums to at most
  \<open>T\<close>. For a table of non-negative values, a positive threshold and \<open>T \<ge> 0\<close> the
  allocator does return, and the sum equals \<open>T\<close> exactly when \<open>T = 0\<close>, or the table's
  total is positive, no value was excluded by the threshold, and the total divides
  \<open>v * T\<close> for every remaining value \<open>v\<close>.
\<close>

theorem pro_rata_distribution_sum_bound:
  "(pro_rata_distribution threshold amount balances = Inr out
      \<longrightarrow> sum_list (dict_values out) \<le> amount)
   \<and> (list_all (\<lambda>v. 0 \<le> v) (dict_values balances) \<and> 0 < threshold \<and> 0 \<le> amount \<longrightarrow>
        (\<exists>r. pro_rata_distribution threshold amount balances = Inr r \<and>
           (sum_list (dict_values r) = amount \<longleftrightarrow>
              amount = 0 \<or>
              (0 < sum_list (dict_values balances)
               \<and> sum_list (dict_values (valfilter (\<lambda>v. threshold \<le> v) balances))
                   = sum_list (dict_values balances)
               \<and> list_all (\<lambda>v. sum_list (dict_values balances) dvd v * amount)
                    (dict_values (valfilter (\<lambda>v. threshold \<le> v) balances))))))"
proof (intro conjI impI)
  assume "pro_rata_distribution threshold amount balances = Inr out"
  then show "sum_list (dict_values out) \<le> amount"
    unfolding pro_rata_distribution_eq Let_def by (auto split: if_splits)
next
  let ?S = "sum_list (dict_values balances)"
  let ?d = "valfilter (\<lambda>v. threshold \<le> v) balances"
  let ?vs = "dict_values ?d"
  let ?r = "map (\<lambda>uv. (fst uv, py_int (Fract (snd uv) ?S * of_int amount))) ?d"
  assume h: "list_all (\<lambda>v. 0 \<le> v) (dict_values balances) \<and> 0 < threshold \<and> 0 \<le> amount"
  then have nonneg: "list_all (\<lambda>v. 0 \<le> v) (dict_values balances)"
    and thr: "0 < threshold" and amt: "0 \<le> amount" by simp_all
  have vs: "?vs = filter (\<lambda>v. threshold \<le> v) (dict_values balances)"
    by (rule dict_values_valfilter)
  have vs_nonneg: "list_all (\<lambda>v. 0 \<le> v) ?vs"
    using nonneg unfolding vs by (auto simp: list_all_iff)
  have surv_le: "sum_list ?vs \<le> ?S"
    unfolding vs using nonneg by (rule sum_list_filter_le)
  have S_nonneg: "0 \<le> ?S"
    using nonneg by (auto simp: list_all_iff intro: sum_list_nonneg)
  have rvals: "dict_values ?r = map (\<lambda>v. py_int (Fract v ?S * of_int amount)) ?vs"
    by (simp add: dict_values_def comp_def)
  show "\<exists>r. pro_rata_distribution threshold amount balances = Inr r \<and>
           (sum_list (dict_values r) = amount \<longleftrightarrow>
              amount = 0 \<or>
              (0 < ?S \<and> sum_list ?vs = ?S \<and> list_all (\<lambda>v. ?S dvd v * amount) ?vs))"
  proof (cases "?S = 0")
    case True
    with nonneg have "\<forall>v \<in> set (dict_values balances). v = 0"
      by (auto simp: list_all_iff sum_list_nonneg_eq_0_iff)
    with thr have "filter (\<lambda>v. threshold \<le> v) (dict_values balances) = []"
      by (auto simp: filter_empty_conv)
    then have "?vs = []" using vs by simp
    then have d: "?d = []" by (simp add: dict_values_def)
    have "pro_rata_distribution threshold amount balances = Inr []"
      unfolding pro_rata_distribution_eq Let_def using d amt by (simp add: dict_values_def)
    then show ?thesis using True amt by (auto simp: dict_values_def)
  next
    case False
    with S_nonneg have S_pos: "0 < ?S" by simp
    let ?a = "sum_list (map (\<lambda>v. (v * amount) div ?S) ?vs)"
    let ?R = "sum_list (map (\<lambda>v. (v * amount) mod ?S) ?vs)"
    have avals: "dict_values ?r = map (\<lambda>v. (v * amount) div ?S) ?vs"
      unfolding rvals using S_pos amt vs_nonneg by (rule share_values_nonneg)
    have key: "?S * ?a + ?R = amount * sum_list ?vs"
      by (rule sum_list_div_mod)
    have R_nonneg: "0 \<le> ?R"
      using S_pos by (auto intro!: sum_list_nonneg)
    have R_zero: "?R = 0 \<longleftrightarrow> list_all (\<lambda>v. ?S dvd v * amount) ?vs"
    proof -
      have "?R = 0 \<longleftrightarrow> (\<forall>x \<in> set (map (\<lambda>v. (v * amount) mod ?S) ?vs). x = 0)"
        using S_pos by (intro sum_list_nonneg_eq_0_iff) auto
      then show ?thesis by (auto simp: list_all_iff dvd_eq_mod_eq_0)
    qed
    have le1: "amount * sum_list ?vs \<le> amount * ?S"
      using surv_le amt by (rule mult_left_mono)
    have "?S * ?a \<le> ?S * amount"
      using key R_nonneg le1 by (simp add: mult.commute)
    with S_pos have bound: "?a \<le> amount" by simp
    have ret: "pro_rata_distribution threshold amount balances = Inr ?r"
      unfolding pro_rata_distribution_eq Let_def using False bound avals by simp
    have eq: "?a = amount \<longleftrightarrow>
        amount = 0 \<or> (sum_list ?vs = ?S \<and> list_all (\<lambda>v. ?S dvd v * amount) ?vs)"
    proof
      assume a: "?a = amount"
      with key have "amount * (?S - sum_list ?vs) + ?R = 0" by (simp add: algebra_simps)
      moreover have "0 \<le> amount * (?S - sum_list ?vs)" using amt surv_le by simp
      ultimately have "amount * (?S - sum_list ?vs) = 0" and "?R = 0"
        using R_nonneg by linarith+
      then show "amount = 0 \<or> (sum_list ?vs = ?S \<and> list_all (\<lambda>v. ?S dvd v * amount) ?vs)"
        using R_zero by auto
    next
      assume "amount = 0 \<or> (sum_list ?vs = ?S \<and> list_all (\<lambda>v. ?S dvd v * amount) ?vs)"
      then show "?a = amount"
      proof
        assume "amount = 0"
        then show ?thesis by simp
      next
        assume "sum_list ?vs = ?S \<and> list_all (\<lambda>v. ?S dvd v * amount) ?vs"
        then have "?R = 0" and "sum_list ?vs = ?S" using R_zero by simp_all
        with key have "?S * ?a = ?S * amount" by (simp add: mult.commute)
        with S_pos show ?thesis by simp
      qed
    qed
    show ?thesis using ret eq avals S_pos by auto
  qed
qed

theorem pro_rata_distribution_sum_bound_witness:
  "list_all (\<lambda>v. 0 \<le> v) (dict_values [(''0xa'', ether 3), (''0xb'', ether 1)])
   \<and> 0 < ether 1 \<and> 0 \<le> DISTRIBUTION_AMOUNT
   \<and> pro_rata_distribution (ether 1) DISTRIBUTION_AMOUNT [(''0xa'', ether 3), (''0xb'', ether 1)]
       = Inr [(''0xa'', 6000000000000000000000000), (''0xb'', 2000000000000000000000000)]
   \<and> sum_list (dict_values [(''0xa'', 6000000000000000000000000), (''0xb'', 2000000000000000000000000)])
       = DISTRIBUTION_AMOUNT"
  using pro_rata_distribution_sum_bound [of "ether 1" DISTRIBUTION_AMOUNT
      "[(''0xa'', ether 3), (''0xb'', ether 1)]"
      "[(''0xa'', 6000000000000000000000000), (''0xb'', 2000000000000000000000000)]"]
  by (simp add: pro_rata_distribution_def pro_rata_share_int
      valfilter_def dict_values_def ether_def DISTRIBUTION_AMOUNT_def)

section \<open>A chain with one contract, for the worked examples\<close>

text \<open>
  On this chain the only Transfer events are \<open>evs\<close>, emitted by contract \<open>c\<close> in block
  \<open>START_BLOCK\<close>, and \<open>c\<close> answers the Uniswap factory probe.
\<close>

definition one_contract_world :: "address \<Rightarrow> transfer list \<Rightarrow> world" where
  "one_contract_world c evs =
     \<lparr>Transfer_logs = (\<lambda>a blk. if a = c \<and> blk = START_BLOCK then evs else []),
      factory = (\<lambda>a. if a = c then Some UNISWAP_FACTORY else None),
      getColor = (\<lambda>a. None)\<rparr>"

lemma concat_map_single_block:
  "concat (map (\<lambda>blk. if blk = b then es else []) [i..<j]) = (if i \<le> b \<and> b < j then es else [])"
  by (induction j) auto

lemma getLogs_one_contract_world:
  "getLogs (one_contract_world c evs) c START_BLOCK SNAPSHOT_BLOCK = evs"
proof -
  have "Transfer_logs (one_contract_world c evs) c = (\<lambda>blk. if blk = START_BLOCK then evs else [])"
    by (simp add: one_contract_world_def)
  then show ?thesis
    by (simp add: getLogs_def concat_map_single_block START_BLOCK_def SNAPSHOT_BLOCK_def del: upt_Suc)
qed

lemma transfers_one_contract_world:
  "transfers_to_balances (one_contract_world c evs) c
     = valfilter (\<lambda>v. v \<noteq> 0) (most_common (fold apply_log evs []))"
  by (simp add: transfers_to_balances_fold getLogs_one_contract_world)

lemma is_uniswap_one_contract_world: "is_uniswap (one_contract_world c evs) c"
  by (simp add: is_uniswap_def one_contract_world_def)

section \<open>Properties of the pool resolution and of the merge\<close>

lemma pool_split_eq:
  "pool_split balances supply pool_value =
     (let r = map (\<lambda>us. (fst us, py_int (Fract (snd us) supply * of_int pool_value))) balances
      in if supply = 0 \<and> balances \<noteq> [] then Inl ZeroDivisionError
         else if sum_list (dict_values r) \<le> pool_value then Inr r
         else Inl (AssertionError ''no inflation ser''))"
  by (simp add: pool_split_def dict_comprehension_share Let_def)

lemma set_dict_set: "set (dict_set k v d) \<subseteq> insert (k, v) (set d)"
  by (induction d) (auto split: if_splits)

definition resolved_entry :: "world \<Rightarrow> int dict \<Rightarrow> address \<times> int dict \<Rightarrow> bool" where
  "resolved_entry w contracts ar \<longleftrightarrow>
     (\<exists>pool_value. (fst ar, pool_value) \<in> set contracts
        \<and> (is_uniswap w (fst ar) \<or> is_balancer w (fst ar))
        \<and> sum_list (dict_values (transfers_to_balances w (fst ar))) \<noteq> 0
        \<and> snd ar = map (\<lambda>us. (fst us, py_int (Fract (snd us)
                          (sum_list (dict_values (transfers_to_balances w (fst ar))))
                          * of_int pool_value)))
                     (transfers_to_balances w (fst ar))
        \<and> sum_list (dict_values (snd ar)) \<le> pool_value)"

lemma resolved_entry_Cons: "resolved_entry w cs ar \<Longrightarrow> resolved_entry w (c # cs) ar"
  by (auto simp: resolved_entry_def)

lemma step_04_loop_entries:
  "step_04_loop w cs acc = Inr repl \<Longrightarrow> ar \<in> set repl
     \<Longrightarrow> ar \<in> set acc \<or> resolved_entry w cs ar"
proof (induction cs arbitrary: acc)
  case Nil
  then show ?case by simp
next
  case (Cons c cs)
  obtain address pool_value where c: "c = (address, pool_value)" by (cases c)
  let ?b = "transfers_to_balances w address"
  let ?S = "sum_list (dict_values ?b)"
  show ?case
  proof (cases "(is_uniswap w address \<or> is_balancer w address) \<and> ?S \<noteq> 0")
    case False
    then have "step_04_loop w cs acc = Inr repl"
      using Cons.prems(1) c by (auto simp: Let_def split: if_splits)
    from Cons.IH [OF this Cons.prems(2)] show ?thesis
      by (auto intro: resolved_entry_Cons)
  next
    case True
    then obtain r where r: "pool_split ?b ?S pool_value = Inr r"
      and rest: "step_04_loop w cs (dict_set address r acc) = Inr repl"
      using Cons.prems(1) c by (auto simp: Let_def split: sum.splits)
    from r True have r_eq:
      "r = map (\<lambda>us. (fst us, py_int (Fract (snd us) ?S * of_int pool_value))) ?b"
      and r_le: "sum_list (dict_values r) \<le> pool_value"
      by (auto simp: pool_split_eq Let_def split: if_splits)
    from Cons.IH [OF rest Cons.prems(2)]
    consider "ar \<in> set (dict_set address r acc)" | "resolved_entry w cs ar" by blast
    then show ?thesis
    proof cases
      case 1
      then have "ar = (address, r) \<or> ar \<in> set acc" using set_dict_set by fastforce
      then show ?thesis
      proof
        assume "ar = (address, r)"
        then have "resolved_entry w (c # cs) ar"
          using True r_eq r_le c by (auto simp: resolved_entry_def)
        then show ?thesis ..
      qed simp
    next
      case 2
      then show ?thesis by (auto intro: resolved_entry_Cons)
    qed
  qed
qed

lemma step_04_entries:
  "step_04 w contracts = Inr repl \<Longrightarrow> ar \<in> set repl \<Longrightarrow> resolved_entry w contracts ar"
  using step_04_loop_entries [of w contracts "[]" repl ar] by (simp add: step_04_def)

lemma step_04_loop_no_zero_division: "step_04_loop w cs acc \<noteq> Inl ZeroDivisionError"
proof (induction cs arbitrary: acc)
  case Nil
  then show ?case by simp
next
  case (Cons c cs)
  obtain address pool_value where c: "c = (address, pool_value)" by (cases c)
  have "pool_split b S pool_value \<noteq> Inl ZeroDivisionError" if "S \<noteq> 0" for b S
    using that by (simp add: pool_split_eq Let_def)
  then show ?case using Cons.IH c
    by (auto simp: Let_def split: sum.splits)
qed

lemma pool_split_nonneg:
  assumes nonneg: "list_all (\<lambda>s. 0 \<le> s) (dict_values balances)"
    and S_nonzero: "sum_list (dict_values balances) \<noteq> 0"
    and nonneg_value: "0 \<le> pool_value"
  shows "\<exists>r. pool_split balances (sum_list (dict_values balances)) pool_value = Inr r
            \<and> sum_list (dict_values r) \<le> pool_value
            \<and> (sum_list (dict_values r) = pool_value \<longleftrightarrow>
                 list_all (\<lambda>s. sum_list (dict_values balances) dvd s * pool_value)
                   (dict_values balances))"
proof -
  let ?vs = "dict_values balances"
  let ?S = "sum_list ?vs"
  let ?r = "map (\<lambda>us. (fst us, py_int (Fract (snd us) ?S * of_int pool_value))) balances"
  let ?a = "sum_list (map (\<lambda>v. (v * pool_value) div ?S) ?vs)"
  let ?R = "sum_list (map (\<lambda>v. (v * pool_value) mod ?S) ?vs)"
  have "0 \<le> ?S" using nonneg by (auto simp: list_all_iff intro: sum_list_nonneg)
  with S_nonzero have S_pos: "0 < ?S" by simp
  have "dict_values ?r = map (\<lambda>v. py_int (Fract v ?S * of_int pool_value)) ?vs"
    by (simp add: dict_values_def comp_def)
  also have "\<dots> = map (\<lambda>v. (v * pool_value) div ?S) ?vs"
    using S_pos nonneg_value nonneg by (rule share_values_nonneg)
  finally have avals: "dict_values ?r = map (\<lambda>v. (v * pool_value) div ?S) ?vs" .
  have key: "?S * ?a + ?R = pool_value * ?S" by (rule sum_list_div_mod)
  have R_nonneg: "0 \<le> ?R" using S_pos by (auto intro!: sum_list_nonneg)
  have R_zero: "?R = 0 \<longleftrightarrow> list_all (\<lambda>v. ?S dvd v * pool_value) ?vs"
  proof -
    have "?R = 0 \<longleftrightarrow> (\<forall>x \<in> set (map (\<lambda>v. (v * pool_value) mod ?S) ?vs). x = 0)"
      using S_pos by (intro sum_list_nonneg_eq_0_iff) auto
    then show ?thesis by (auto simp: list_all_iff dvd_eq_mod_eq_0)
  qed
  have "?S * ?a \<le> ?S * pool_value" using key R_nonneg by (simp add: mult.commute)
  with S_pos have bound: "?a \<le> pool_value" by simp
  have ret: "pool_split balances ?S pool_value = Inr ?r"
    unfolding pool_split_eq Let_def using S_nonzero bound avals by simp
  have "?a = pool_value \<longleftrightarrow> ?R = 0"
  proof
    assume "?a = pool_value"
    with key show "?R = 0" by (simp add: mult.commute)
  next
    assume "?R = 0"
    with key have "?S * ?a = ?S * pool_value" by (simp add: mult.commute)
    with S_pos show "?a = pool_value" by simp
  qed
  with R_zero have eq: "?a = pool_value \<longleftrightarrow> list_all (\<lambda>v. ?S dvd v * pool_value) ?vs" by simp
  show ?thesis using ret bound eq avals by auto
qed

lemma step_04_loop_returns:
  assumes "list_all (\<lambda>c. is_uniswap w (fst c) \<or> is_balancer w (fst c) \<longrightarrow>
              0 \<le> snd c \<and> list_all (\<lambda>s. 0 \<le> s) (dict_values (transfers_to_balances w (fst c)))) cs"
  shows "\<exists>repl. step_04_loop w cs acc = Inr repl"
  using assms
proof (induction cs arbitrary: acc)
  case Nil
  then show ?case by simp
next
  case (Cons c cs)
  obtain address pool_value where c: "c = (address, pool_value)" by (cases c)
  let ?b = "transfers_to_balances w address"
  let ?S = "sum_list (dict_values ?b)"
  from Cons.prems have tl: "list_all (\<lambda>c. is_uniswap w (fst c) \<or> is_balancer w (fst c) \<longrightarrow>
              0 \<le> snd c \<and> list_all (\<lambda>s. 0 \<le> s) (dict_values (transfers_to_balances w (fst c)))) cs"
    by simp
  show ?case
  proof (cases "(is_uniswap w address \<or> is_balancer w address) \<and> ?S \<noteq> 0")
    case False
    then show ?thesis using Cons.IH [OF tl, of acc] c by (auto simp: Let_def)
  next
    case True
    with Cons.prems c have "0 \<le> pool_value" "list_all (\<lambda>s. 0 \<le> s) (dict_values ?b)" by auto
    with True obtain r where "pool_split ?b ?S pool_value = Inr r"
      using pool_split_nonneg [of ?b pool_value] by auto
    then show ?thesis using Cons.IH [OF tl, of "dict_set address r acc"] True c
      by (auto simp: Let_def)
  qed
qed


lemma counter_add_other:
  "p \<noteq> k \<Longrightarrow> (p, v) \<in> set (counter_add k d xs) \<longleftrightarrow> (p, v) \<in> set xs"
  by (induction xs) (auto split: if_splits)

lemma dict_keys_counter_add:
  "set (dict_keys (counter_add k d xs)) = insert k (set (dict_keys xs))"
proof (induction xs)
  case Nil
  then show ?case by (simp add: dict_keys_def)
next
  case (Cons x xs)
  obtain a b where x: "x = (a, b)" by (cases x)
  show ?case
  proof (cases "k = a")
    case True
    then show ?thesis using x by (auto simp: dict_keys_def)
  next
    case False
    then show ?thesis using x Cons.IH by (auto simp: dict_keys_def)
  qed
qed

lemma add_all_keys: "p \<in> set (dict_keys b) \<Longrightarrow> p \<in> set (dict_keys (add_all additions b))"
  unfolding add_all_def
  by (induction additions arbitrary: b) (simp_all add: dict_keys_counter_add)

lemma add_all_other:
  "p \<notin> set (dict_keys additions) \<Longrightarrow> (p, v) \<in> set (add_all additions b) \<longleftrightarrow> (p, v) \<in> set b"
  unfolding add_all_def
  by (induction additions arbitrary: b) (auto simp: dict_keys_def counter_add_other)

lemma dict_pop_other:
  "dict_pop k d = Inr d' \<Longrightarrow> p \<noteq> k \<Longrightarrow>
     ((p, v) \<in> set d' \<longleftrightarrow> (p, v) \<in> set d)
     \<and> (p \<in> set (dict_keys d') \<longleftrightarrow> p \<in> set (dict_keys d))"
  by (auto simp: dict_pop_def dict_keys_def split: if_splits)

lemma step_05_loop_keeps_key:
  "step_05_loop b repl = Inr out \<Longrightarrow> p \<notin> set (dict_keys repl) \<Longrightarrow> p \<in> set (dict_keys b)
     \<Longrightarrow> p \<in> set (dict_keys out)"
proof (induction repl arbitrary: b)
  case Nil
  then show ?case by simp
next
  case (Cons ra repl)
  obtain remove additions where ra: "ra = (remove, additions)" by (cases ra)
  from Cons.prems(1) ra obtain b' where pop: "dict_pop remove b = Inr b'"
    and rest: "step_05_loop (add_all additions b') repl = Inr out"
    by (auto split: sum.splits)
  from Cons.prems(2) ra have ne: "p \<noteq> remove" and tl: "p \<notin> set (dict_keys repl)"
    by (auto simp: dict_keys_def)
  from dict_pop_other [OF pop ne] Cons.prems(3) have "p \<in> set (dict_keys b')" by simp
  then have "p \<in> set (dict_keys (add_all additions b'))" by (rule add_all_keys)
  with Cons.IH [OF rest tl] show ?case .
qed

lemma step_05_loop_keeps_value:
  "step_05_loop b repl = Inr out \<Longrightarrow> p \<notin> set (dict_keys repl)
     \<Longrightarrow> list_all (\<lambda>ra. p \<notin> set (dict_keys (snd ra))) repl
     \<Longrightarrow> (p, v) \<in> set b \<Longrightarrow> (p, v) \<in> set out"
proof (induction repl arbitrary: b)
  case Nil
  then show ?case by simp
next
  case (Cons ra repl)
  obtain remove additions where ra: "ra = (remove, additions)" by (cases ra)
  from Cons.prems(1) ra obtain b' where pop: "dict_pop remove b = Inr b'"
    and rest: "step_05_loop (add_all additions b') repl = Inr out"
    by (auto split: sum.splits)
  from Cons.prems(2) ra have ne: "p \<noteq> remove" and tl: "p \<notin> set (dict_keys repl)"
    by (auto simp: dict_keys_def)
  from Cons.prems(3) ra have nc: "p \<notin> set (dict_keys additions)"
    and tlc: "list_all (\<lambda>ra. p \<notin> set (dict_keys (snd ra))) repl" by simp_all
  from dict_pop_other [OF pop ne] Cons.prems(4) have "(p, v) \<in> set b'" by simp
  then have "(p, v) \<in> set (add_all additions b')" using add_all_other [OF nc] by simp
  with Cons.IH [OF rest tl tlc] show ?case .
qed

lemma set_most_common: "set (most_common d) = set d"
  by (simp add: most_common_def)

text \<open>
  Claim C3 fails as stated: the share ledger of a pool is folded from the transfers of
  the block range only and is not checked for negative balances, and \<open>int()\<close> rounds a
  negative share up. With net shares 4, -1 and -1 (supply 2) and a pool value of 3 the
  derived amounts are 6, -1 and -1: their sum 4 exceeds 3 and the assertion fires.
\<close>

theorem step_04_inflation_counterexample:
  "step_04 (one_contract_world ''0xpool''
       [\<lparr>src = ''0xb'', dst = ''0xa'', wad = 1\<rparr>,
        \<lparr>src = ''0xc'', dst = ''0xa'', wad = 1\<rparr>,
        \<lparr>src = ZERO_ADDRESS, dst = ''0xa'', wad = 2\<rparr>])
     [(''0xpool'', 3)]
   = Inl (AssertionError ''no inflation ser'')"
  by (simp add: step_04_def transfers_one_contract_world apply_log_def ZERO_ADDRESS_def
      most_common_def valfilter_def is_uniswap_one_contract_world dict_values_def
      pool_split_def pro_rata_share_int)

text \<open>
  Claim C3, amended. When every recognized pool among the contracts has a non-negative
  value and a share ledger without negative balances, \<open>step_04\<close> returns: no assertion
  fires. Every replacement that \<open>step_04\<close> returns sums to at most the value of its
  pool. For a ledger without negative balances, a nonzero supply and a non-negative
  pool value, the split is returned, sums to at most the pool value, and sums to
  exactly the pool value if and only if the supply divides \<open>share * value\<close> for every
  share.
\<close>

theorem step_04_no_inflation:
  "(list_all (\<lambda>c. is_uniswap w (fst c) \<or> is_balancer w (fst c) \<longrightarrow>
                0 \<le> snd c
                \<and> list_all (\<lambda>s. 0 \<le> s) (dict_values (transfers_to_balances w (fst c)))) contracts
      \<longrightarrow> (\<exists>replacements. step_04 w contracts = Inr replacements))
   \<and> (step_04 w contracts = Inr replacements \<and> (address, r) \<in> set replacements
      \<longrightarrow> (\<exists>pool_value. (address, pool_value) \<in> set contracts
             \<and> sum_list (dict_values r) \<le> pool_value))
   \<and> (list_all (\<lambda>s. 0 \<le> s) (dict_values balances)
        \<and> sum_list (dict_values balances) \<noteq> 0 \<and> 0 \<le> pool_value
      \<longrightarrow> (\<exists>r. pool_split balances (sum_list (dict_values balances)) pool_value = Inr r
            \<and> sum_list (dict_values r) \<le> pool_value
            \<and> (sum_list (dict_values r) = pool_value \<longleftrightarrow>
                 list_all (\<lambda>s. sum_list (dict_values balances) dvd s * pool_value)
                   (dict_values balances))))"
proof (intro conjI impI)
  assume "list_all (\<lambda>c. is_uniswap w (fst c) \<or> is_balancer w (fst c) \<longrightarrow>
                0 \<le> snd c
                \<and> list_all (\<lambda>s. 0 \<le> s) (dict_values (transfers_to_balances w (fst c)))) contracts"
  then show "\<exists>replacements. step_04 w contracts = Inr replacements"
    unfolding step_04_def by (rule step_04_loop_returns)
next
  assume "step_04 w contracts = Inr replacements \<and> (address, r) \<in> set replacements"
  then have "resolved_entry w contracts (address, r)" by (auto intro: step_04_entries)
  then show "\<exists>pool_value. (address, pool_value) \<in> set contracts
             \<and> sum_list (dict_values r) \<le> pool_value"
    by (auto simp: resolved_entry_def)
next
  assume "list_all (\<lambda>s. 0 \<le> s) (dict_values balances)
        \<and> sum_list (dict_values balances) \<noteq> 0 \<and> 0 \<le> pool_value"
  then show "\<exists>r. pool_split balances (sum_list (dict_values balances)) pool_value = Inr r
            \<and> sum_list (dict_values r) \<le> pool_value
            \<and> (sum_list (dict_values r) = pool_value \<longleftrightarrow>
                 list_all (\<lambda>s. sum_list (dict_values balances) dvd s * pool_value)
                   (dict_values balances))"
    using pool_split_nonneg [of balances pool_value] by blast
qed

theorem step_04_no_inflation_witness:
  "list_all (\<lambda>c. is_uniswap (one_contract_world ''0xpool''
       [\<lparr>src = ZERO_ADDRESS, dst = ''0xa'', wad = 3\<rparr>, \<lparr>src = ZERO_ADDRESS, dst = ''0xb'', wad = 1\<rparr>]) (fst c)
       \<or> is_balancer (one_contract_world ''0xpool''
       [\<lparr>src = ZERO_ADDRESS, dst = ''0xa'', wad = 3\<rparr>, \<lparr>src = ZERO_ADDRESS, dst = ''0xb'', wad = 1\<rparr>]) (fst c) \<longrightarrow>
                0 \<le> snd c
                \<and> list_all (\<lambda>s. 0 \<le> s) (dict_values (transfers_to_balances (one_contract_world ''0xpool''
       [\<lparr>src = ZERO_ADDRESS, dst = ''0xa'', wad = 3\<rparr>, \<lparr>src = ZERO_ADDRESS, dst = ''0xb'', wad = 1\<rparr>]) (fst c)))) [(''0xpool'', 8 :: int)]
   \<and> step_04 (one_contract_world ''0xpool''
       [\<lparr>src = ZERO_ADDRESS, dst = ''0xa'', wad = 3\<rparr>, \<lparr>src = ZERO_ADDRESS, dst = ''0xb'', wad = 1\<rparr>])
     [(''0xpool'', 8)]
     = Inr [(''0xpool'', [(''0xa'', 6), (''0xb'', 2)])]
   \<and> list_all (\<lambda>s. 0 \<le> s) (dict_values [(''0xa'', 3), (''0xb'', 1 :: int)])
   \<and> pool_split [(''0xa'', 3), (''0xb'', 1)] (sum_list (dict_values [(''0xa'', 3), (''0xb'', 1)])) 8
       = Inr [(''0xa'', 6), (''0xb'', 2)]
   \<and> sum_list (dict_values [(''0xa'', 6), (''0xb'', 2 :: int)]) = 8
   \<and> list_all (\<lambda>s. sum_list (dict_values [(''0xa'', 3), (''0xb'', 1 :: int)]) dvd s * 8)
        (dict_values [(''0xa'', 3), (''0xb'', 1 :: int)])"
proof -
  let ?w = "one_contract_world ''0xpool''
       [\<lparr>src = ZERO_ADDRESS, dst = ''0xa'', wad = 3\<rparr>, \<lparr>src = ZERO_ADDRESS, dst = ''0xb'', wad = 1\<rparr>]"
  have b: "transfers_to_balances ?w ''0xpool'' = [(''0xa'', 3), (''0xb'', 1)]"
    by (simp add: transfers_one_contract_world apply_log_def ZERO_ADDRESS_def most_common_def
        valfilter_def)
  show ?thesis
    using step_04_no_inflation [of ?w "[(''0xpool'', 8)]" "[(''0xpool'', [(''0xa'', 6), (''0xb'', 2)])]"
        "''0xpool''" "[(''0xa'', 6), (''0xb'', 2)]" "[(''0xa'', 3), (''0xb'', 1)]" 8]
    by (simp add: step_04_def b is_uniswap_one_contract_world dict_values_def pool_split_def
        pro_rata_share_int)
qed




text \<open>
  Claim C10, amended. \<open>step_04\<close> never evaluates \<open>Fraction\<close> with a zero denominator, and
  a pool whose share ledger sums to zero gets no replacement entry. \<open>step_05\<close> then
  leaves such a holder in the table as a single entry; its value is the one it had
  whenever no resolved pool lists it among its own internal holders (a resolved pool
  that does credits its derived amount to the same entry).
\<close>

theorem zero_supply_pool_kept:
  "step_04 w contracts \<noteq> Inl ZeroDivisionError
   \<and> (step_04 w contracts = Inr replacements
        \<and> sum_list (dict_values (transfers_to_balances w pool)) = 0
      \<longrightarrow> pool \<notin> set (dict_keys replacements))
   \<and> (step_05 balances replacements = Inr merged
        \<and> pool \<notin> set (dict_keys replacements) \<and> (pool, v) \<in> set balances
      \<longrightarrow> pool \<in> set (dict_keys merged)
          \<and> (list_all (\<lambda>ra. pool \<notin> set (dict_keys (snd ra))) replacements
               \<longrightarrow> (pool, v) \<in> set merged))"
proof (intro conjI impI)
  show "step_04 w contracts \<noteq> Inl ZeroDivisionError"
    by (simp add: step_04_def step_04_loop_no_zero_division)
next
  assume h: "step_04 w contracts = Inr replacements
        \<and> sum_list (dict_values (transfers_to_balances w pool)) = 0"
  show "pool \<notin> set (dict_keys replacements)"
  proof
    assume "pool \<in> set (dict_keys replacements)"
    then obtain r where "(pool, r) \<in> set replacements" by (auto simp: dict_keys_def)
    with h have "resolved_entry w contracts (pool, r)" by (auto intro: step_04_entries)
    with h show False by (simp add: resolved_entry_def)
  qed
next
  assume h: "step_05 balances replacements = Inr merged
        \<and> pool \<notin> set (dict_keys replacements) \<and> (pool, v) \<in> set balances"
  then obtain b where loop: "step_05_loop balances replacements = Inr b"
    and merged: "merged = most_common b"
    by (auto simp: step_05_def split: sum.splits)
  from h have "pool \<in> set (dict_keys balances)" by (force simp: dict_keys_def)
  with step_05_loop_keeps_key [OF loop] h have "pool \<in> set (dict_keys b)" by simp
  then show "pool \<in> set (dict_keys merged)"
    using merged by (simp add: dict_keys_def set_most_common)
  assume "list_all (\<lambda>ra. pool \<notin> set (dict_keys (snd ra))) replacements"
  with step_05_loop_keeps_value [OF loop] h have "(pool, v) \<in> set b" by simp
  then show "(pool, v) \<in> set merged" using merged by (simp add: set_most_common)
qed

theorem zero_supply_pool_kept_witness:
  "step_04 (one_contract_world ''0xpool'' [\<lparr>src = ''0xa'', dst = ''0xb'', wad = 5\<rparr>]) [(''0xpool'', 7)]
     = Inr []
   \<and> sum_list (dict_values (transfers_to_balances
        (one_contract_world ''0xpool'' [\<lparr>src = ''0xa'', dst = ''0xb'', wad = 5\<rparr>]) ''0xpool'')) = 0
   \<and> step_05 [(''0xq'', 4), (''0xpool'', 7)] [(''0xq'', [(''0xu'', 4)])]
       = Inr [(''0xpool'', 7), (''0xu'', 4)]
   \<and> ''0xpool'' \<notin> set (dict_keys [(''0xq'', [(''0xu'', 4 :: int)])])
   \<and> list_all (\<lambda>ra. ''0xpool'' \<notin> set (dict_keys (snd ra))) [(''0xq'', [(''0xu'', 4 :: int)])]
   \<and> (''0xpool'', 7) \<in> set [(''0xpool'', 7), (''0xu'', 4 :: int)]"
proof -
  let ?w = "one_contract_world ''0xpool'' [\<lparr>src = ''0xa'', dst = ''0xb'', wad = 5\<rparr>]"
  have b: "transfers_to_balances ?w ''0xpool'' = [(''0xb'', 5), (''0xa'', - 5)]"
    by (simp add: transfers_one_contract_world apply_log_def ZERO_ADDRESS_def most_common_def
        valfilter_def)
  have e: "step_04 ?w [(''0xpool'', 7)] = Inr []"
    by (simp add: step_04_def b is_uniswap_one_contract_world dict_values_def)
  have f: "step_05 [(''0xq'', 4), (''0xpool'', 7)] [(''0xq'', [(''0xu'', 4)])]
       = Inr [(''0xpool'', 7), (''0xu'', 4)]"
    by (simp add: step_05_def dict_pop_def dict_keys_def add_all_def most_common_def)
  show ?thesis
    using zero_supply_pool_kept [of ?w "[(''0xpool'', 7)]" "[]" "''0xpool''"]
      zero_supply_pool_kept [of ?w "[(''0xpool'', 7)]" "[(''0xq'', [(''0xu'', 4)])]" "''0xpool''"
        "[(''0xq'', 4), (''0xpool'', 7)]" "[(''0xpool'', 7), (''0xu'', 4)]" 7] e f
    by (simp add: b dict_values_def dict_keys_def)
qed

section \<open>Properties of the Merkle tree and its proofs\<close>

text \<open>
  The layers above a bottom layer, as a recursion on the current layer: what the
  \<open>while\<close> loop of \<open>get_layers\<close> appends (\<open>get_layers_eq\<close>).
\<close>

function layers_from :: "(bytes \<Rightarrow> bytes) \<Rightarrow> bytes list \<Rightarrow> bytes list list" where
  "layers_from keccak xs =
     (if length xs > 1 then xs # layers_from keccak (get_next_layer keccak xs) else [xs])"
  by pat_completeness auto
termination layers_from
  by (relation "measure (\<lambda>(keccak, xs). length xs)") (auto simp: length_get_next_layer)

declare layers_from.simps [simp del]

lemma get_layers_loop_append:
  "get_layers_loop keccak (ls @ [xs]) = ls @ layers_from keccak xs"
proof (induction keccak xs arbitrary: ls rule: layers_from.induct)
  case (1 keccak xs)
  show ?case
  proof (cases "length xs > 1")
    case True
    have "get_layers_loop keccak (ls @ [xs])
          = get_layers_loop keccak ((ls @ [xs]) @ [get_next_layer keccak xs])"
      using True by (subst get_layers_loop.simps) simp
    also have "\<dots> = (ls @ [xs]) @ layers_from keccak (get_next_layer keccak xs)"
      using True by (rule "1.IH")
    also have "\<dots> = ls @ layers_from keccak xs"
      using True by (subst (2) layers_from.simps) simp
    finally show ?thesis .
  next
    case False
    then show ?thesis
      by (subst get_layers_loop.simps, subst layers_from.simps) simp
  qed
qed

lemma get_layers_eq: "get_layers keccak xs = layers_from keccak xs"
  using get_layers_loop_append [of keccak "[]" xs] by (simp add: get_layers_def)

lemma sort_pair_commute:
  fixes a b :: "'a::linorder"
  shows "sort [a, b] = sort [b, a]"
  by (cases "a \<le> b"; cases "b \<le> a") auto

lemma next_layer_index:
  assumes "i < length xs"
  shows "i div 2 < length (get_next_layer keccak xs)
       \<and> get_next_layer keccak xs ! (i div 2)
         = (if (if i mod 2 = 0 then i + 1 else i - 1) < length xs
            then keccak (concat (sort [xs ! i, xs ! (if i mod 2 = 0 then i + 1 else i - 1)]))
            else xs ! i)"
  using assms
proof (induction xs arbitrary: i rule: induct_list012)
  case 1
  then show ?case by simp
next
  case (2 x)
  then show ?case by simp
next
  case (3 a b zs)
  consider "i = 0" | "i = 1" | j where "i = j + 2" by (metis One_nat_def add_2_eq_Suc' not0_implies_Suc)
  then show ?case
  proof cases
    case 1
    then show ?thesis by (simp del: sort_key_simps)
  next
    case 2
    then show ?thesis using sort_pair_commute [of a b] by (simp del: sort_key_simps)
  next
    case 3
    with "3.prems" have j: "j < length zs" by simp
    have par: "(j + 2) mod 2 = j mod 2" by simp
    from "3.IH"(1) [OF j] 3 show ?thesis
      by (auto simp del: sort_key_simps simp: par)
  qed
qed


lemma get_proof_loop_acc:
  "get_proof_loop ls idx acc = acc @ get_proof_loop ls idx []"
proof (induction ls arbitrary: idx acc)
  case Nil
  then show ?case by simp
next
  case (Cons layer rest)
  show ?case
    using Cons.IH [of "idx div 2" "acc @ [layer ! (if idx mod 2 = 0 then idx + 1 else idx - 1)]"]
      Cons.IH [of "idx div 2" "[layer ! (if idx mod 2 = 0 then idx + 1 else idx - 1)]"]
      Cons.IH [of "idx div 2" acc]
    by (simp add: Let_def)
qed

lemma walk_proof_append:
  "walk_proof keccak leaf (p @ q) = walk_proof keccak (walk_proof keccak leaf p) q"
  by (simp add: walk_proof_def)

lemma layers_from_nonempty: "layers_from keccak xs \<noteq> []"
  by (subst layers_from.simps) simp

lemma last_layers_from_nonempty: "xs \<noteq> [] \<Longrightarrow> last (layers_from keccak xs) \<noteq> []"
proof (induction keccak xs rule: layers_from.induct)
  case (1 keccak xs)
  show ?case
  proof (cases "length xs > 1")
    case True
    then have "get_next_layer keccak xs \<noteq> []"
      using length_get_next_layer [of keccak xs] by auto
    with True "1.IH" show ?thesis
      by (subst layers_from.simps) (simp add: layers_from_nonempty)
  next
    case False
    with "1.prems" show ?thesis by (subst layers_from.simps) simp
  qed
qed

lemma walk_reaches_top:
  "i < length xs \<Longrightarrow>
     walk_proof keccak (xs ! i) (get_proof_loop (layers_from keccak xs) i [])
       = hd (last (layers_from keccak xs))"
proof (induction keccak xs arbitrary: i rule: layers_from.induct)
  case (1 keccak xs)
  show ?case
  proof (cases "length xs > 1")
    case True
    let ?pair = "if i mod 2 = 0 then i + 1 else i - 1"
    let ?sib = "if ?pair < length xs then [xs ! ?pair] else []"
    let ?next = "get_next_layer keccak xs"
    from next_layer_index [OF "1.prems", of keccak]
    have lt: "i div 2 < length ?next"
      and nxt: "?next ! (i div 2)
         = (if ?pair < length xs then keccak (concat (sort [xs ! i, xs ! ?pair])) else xs ! i)"
      by simp_all
    have step: "walk_proof keccak (xs ! i) ?sib = ?next ! (i div 2)"
      unfolding nxt by (simp add: walk_proof_def del: sort_key_simps)
    have layers: "layers_from keccak xs = xs # layers_from keccak ?next"
      using True by (subst layers_from.simps) simp
    have "get_proof_loop (layers_from keccak xs) i []
          = ?sib @ get_proof_loop (layers_from keccak ?next) (i div 2) []"
      unfolding layers
      using get_proof_loop_acc [of "layers_from keccak ?next" "i div 2" "[xs ! ?pair]"]
      by (simp add: Let_def)
    then have "walk_proof keccak (xs ! i) (get_proof_loop (layers_from keccak xs) i [])
          = walk_proof keccak (?next ! (i div 2))
              (get_proof_loop (layers_from keccak ?next) (i div 2) [])"
      by (simp only: walk_proof_append step)
    also have "\<dots> = hd (last (layers_from keccak ?next))"
      using True lt by (rule "1.IH")
    also have "\<dots> = hd (last (layers_from keccak xs))"
      unfolding layers by (simp add: layers_from_nonempty)
    finally show ?thesis .
  next
    case False
    with "1.prems" obtain x where xs: "xs = [x]" and i: "i = 0"
      by (cases xs) auto
    have "layers_from keccak [x] = [[x]]" by (subst layers_from.simps) simp
    then show ?thesis using xs i by (simp add: walk_proof_def)
  qed
qed

lemma index_found:
  "y \<in> set xs \<Longrightarrow> \<exists>i. index xs y = Inr i \<and> i < length xs \<and> xs ! i = y"
  by (induction xs) auto

lemma root_init:
  "sort (remdups (map keccak els)) \<noteq> [] \<Longrightarrow>
     root (MerkleTree_init keccak els)
       = Inr (hd (last (layers_from keccak (sort (remdups (map keccak els))))))"
proof -
  let ?h = "sort (remdups (map keccak els))"
  assume ne: "?h \<noteq> []"
  have l: "layers (MerkleTree_init keccak els) = layers_from keccak ?h"
    by (simp add: MerkleTree_init_def Let_def get_layers_eq)
  from last_layers_from_nonempty [OF ne, of keccak]
  obtain h t where "last (layers_from keccak ?h) = h # t"
    by (cases "last (layers_from keccak ?h)") auto
  then show ?thesis
    unfolding root_def l using layers_from_nonempty [of keccak ?h]
    by (cases "layers_from keccak ?h") simp_all
qed

text \<open>
  Claim C5. For every tree built from a list of leaves and every leaf of that list,
  \<open>get_proof\<close> returns a proof and the tree has a root, and walking the proof from the
  leaf hash (each emitted sibling replaces the current hash by the hash of the
  byte-wise sorted pair; a layer that emits no sibling leaves it unchanged) ends at
  exactly that root.
\<close>

theorem get_proof_walk_reaches_root:
  "el \<in> set els \<Longrightarrow>
     \<exists>prf r. get_proof keccak (MerkleTree_init keccak els) el = Inr prf
           \<and> root (MerkleTree_init keccak els) = Inr r
           \<and> walk_proof keccak (keccak el) prf = r"
proof -
  let ?h = "sort (remdups (map keccak els))"
  let ?t = "MerkleTree_init keccak els"
  assume "el \<in> set els"
  then have mem: "keccak el \<in> set ?h" by simp
  then have ne: "?h \<noteq> []" by (metis empty_iff list.set(1))
  have e: "elements ?t = ?h" and l: "layers ?t = layers_from keccak ?h"
    by (simp_all add: MerkleTree_init_def Let_def get_layers_eq)
  from index_found [OF mem] obtain i where
    idx: "index ?h (keccak el) = Inr i" and lt: "i < length ?h" and at: "?h ! i = keccak el"
    by blast
  have "get_proof keccak ?t el = Inr (get_proof_loop (layers_from keccak ?h) i [])"
    by (simp add: get_proof_def e l idx)
  moreover have "root ?t = Inr (hd (last (layers_from keccak ?h)))"
    using ne by (rule root_init)
  moreover have "walk_proof keccak (keccak el) (get_proof_loop (layers_from keccak ?h) i [])
        = hd (last (layers_from keccak ?h))"
    using walk_reaches_top [OF lt, of keccak] at by simp
  ultimately show ?thesis by blast
qed

lemma example_tree: "MerkleTree_init (\<lambda>b. 7 # b) [[1], [2], [3]]
   = \<lparr>elements = [[7, 1], [7, 2], [7, 3]],
      layers = [[[7, 1], [7, 2], [7, 3]], [[7, 7, 1, 7, 2], [7, 3]], [[7, 7, 3, 7, 7, 1, 7, 2]]]\<rparr>"
  by (simp add: MerkleTree_init_def Let_def get_layers_def get_layers_loop.simps)

theorem get_proof_walk_reaches_root_witness:
  "[3] \<in> set [[1], [2], [3 :: 8 word]]
   \<and> get_proof (\<lambda>b. 7 # b) (MerkleTree_init (\<lambda>b. 7 # b) [[1], [2], [3]]) [3] = Inr [[7, 7, 1, 7, 2]]
   \<and> root (MerkleTree_init (\<lambda>b. 7 # b) [[1], [2], [3]]) = Inr [7, 7, 3, 7, 7, 1, 7, 2]
   \<and> walk_proof (\<lambda>b. 7 # b) ((\<lambda>b. 7 # b) [3]) [[7, 7, 1, 7, 2]] = [7, 7, 3, 7, 7, 1, 7, 2]"
proof -
  have g: "get_proof (\<lambda>b. 7 # b) (MerkleTree_init (\<lambda>b. 7 # b) [[1], [2], [3]]) [3] = Inr [[7, 7, 1, 7, 2]]"
    by (simp add: example_tree get_proof_def)
  have r: "root (MerkleTree_init (\<lambda>b. 7 # b) [[1], [2], [3]]) = Inr [7, 7, 3, 7, 7, 1, 7, 2]"
    by (simp add: example_tree root_def)
  show ?thesis
    using get_proof_walk_reaches_root [of "[3]" "[[1], [2], [3]]" "\<lambda>b. 7 # b"] g r by simp
qed

text \<open>
  Claim C6. Two leaf lists with the same underlying set (permutations of each other, or
  with repetitions) build the same tree, and so give the same root (or both fail, when
  the lists are empty).
\<close>

theorem MerkleTree_root_order_independent:
  "set xs = set ys \<Longrightarrow>
     MerkleTree_init keccak xs = MerkleTree_init keccak ys
     \<and> root (MerkleTree_init keccak xs) = root (MerkleTree_init keccak ys)"
proof -
  assume "set xs = set ys"
  then have "set (map keccak xs) = set (map keccak ys)" by simp
  then have "sort (remdups (map keccak xs)) = sort (remdups (map keccak ys))"
    by (metis sorted_list_of_set_sort_remdups)
  then show ?thesis by (simp add: MerkleTree_init_def)
qed

theorem MerkleTree_root_order_independent_witness:
  "set [[1], [2], [2 :: 8 word]] = set [[2], [1]]
   \<and> root (MerkleTree_init (\<lambda>b. 7 # b) [[1], [2], [2]]) = Inr [7, 7, 1, 7, 2]
   \<and> root (MerkleTree_init (\<lambda>b. 7 # b) [[2], [1]]) = Inr [7, 7, 1, 7, 2]"
proof -
  have s: "set [[1], [2], [2 :: 8 word]] = set [[2], [1]]" by auto
  have r: "root (MerkleTree_init (\<lambda>b. 7 # b) [[2], [1]]) = Inr [7, 7, 1, 7, 2]"
    by (simp add: MerkleTree_init_def Let_def get_layers_def get_layers_loop.simps root_def)
  show ?thesis using MerkleTree_root_order_independent [OF s, of "\<lambda>b. 7 # b"] r s by simp
qed

section \<open>Properties of step\_01\<close>














section \<open>A chain with several contracts, for the worked examples\<close>

text \<open>
  On this chain every listed contract emitted its Transfer events in one block, given
  with it, and answers the Uniswap factory probe; no other contract has events.
\<close>

definition single_block_world :: "(address \<times> nat \<times> transfer list) list \<Rightarrow> world" where
  "single_block_world cs =
     \<lparr>Transfer_logs = (\<lambda>a b. case map_of cs a of
                                 None \<Rightarrow> []
                               | Some be \<Rightarrow> if b = fst be then snd be else []),
      factory = (\<lambda>a. if a \<in> set (map fst cs) then Some UNISWAP_FACTORY else None),
      getColor = (\<lambda>a. None)\<rparr>"

lemma getLogs_single_block_world:
  "getLogs (single_block_world cs) a i j =
     (case map_of cs a of
        None \<Rightarrow> []
      | Some be \<Rightarrow> if i \<le> fst be \<and> fst be \<le> j then snd be else [])"
proof (cases "map_of cs a")
  case None
  then have "Transfer_logs (single_block_world cs) a = (\<lambda>b. [])"
    by (simp add: single_block_world_def)
  with None show ?thesis by (simp add: getLogs_def del: upt_Suc)
next
  case (Some be)
  then have "Transfer_logs (single_block_world cs) a
             = (\<lambda>b. if b = fst be then snd be else [])"
    by (simp add: single_block_world_def)
  with Some show ?thesis
    by (auto simp add: getLogs_def concat_map_single_block simp del: upt_Suc)
qed

lemma is_uniswap_single_block_world:
  "is_uniswap (single_block_world cs) a \<longleftrightarrow> a \<in> set (map fst cs)"
  by (simp add: is_uniswap_def single_block_world_def)

lemma transfers_single_block_world:
  "transfers_to_balances (single_block_world cs) a
     = valfilter (\<lambda>v. v \<noteq> 0) (most_common (fold apply_log
         (case map_of cs a of
            None \<Rightarrow> []
          | Some be \<Rightarrow> if START_BLOCK \<le> fst be \<and> fst be \<le> SNAPSHOT_BLOCK then snd be else [])
         []))"
  by (simp add: transfers_to_balances_fold getLogs_single_block_world)

section \<open>The ledger and the batch length\<close>




section \<open>A zero-supply pool that another pool credits\<close>

text \<open>
  Claim C10 fails as stated where it says the holder retains its original value: pool
  \<open>0xp\<close>, whose own share ledger sums to zero, is the only share holder of the
  resolved pool \<open>0xq\<close>. \<open>step_04\<close> gives \<open>0xp\<close> no replacement entry, and \<open>step_05\<close>
  credits it the 4 derived from \<open>0xq\<close>: it enters with 7 and leaves with 11.
\<close>

theorem zero_supply_pool_credited_counterexample:
  "step_04 (single_block_world
       [(''0xq'', START_BLOCK, [\<lparr>src = ZERO_ADDRESS, dst = ''0xp'', wad = 1\<rparr>]),
        (''0xp'', START_BLOCK, [\<lparr>src = ''0xa'', dst = ''0xb'', wad = 5\<rparr>])])
     [(''0xq'', 4), (''0xp'', 7)]
     = Inr [(''0xq'', [(''0xp'', 4)])]
   \<and> sum_list (dict_values (transfers_to_balances (single_block_world
       [(''0xq'', START_BLOCK, [\<lparr>src = ZERO_ADDRESS, dst = ''0xp'', wad = 1\<rparr>]),
        (''0xp'', START_BLOCK, [\<lparr>src = ''0xa'', dst = ''0xb'', wad = 5\<rparr>])]) ''0xp'')) = 0
   \<and> step_05 [(''0xq'', 4), (''0xp'', 7)] [(''0xq'', [(''0xp'', 4)])] = Inr [(''0xp'', 11)]"
proof -
  let ?w = "single_block_world
       [(''0xq'', START_BLOCK, [\<lparr>src = ZERO_ADDRESS, dst = ''0xp'', wad = 1\<rparr>]),
        (''0xp'', START_BLOCK, [\<lparr>src = ''0xa'', dst = ''0xb'', wad = 5\<rparr>])]"
  have q: "transfers_to_balances ?w ''0xq'' = [(''0xp'', 1)]"
    by (simp add: transfers_single_block_world START_BLOCK_def SNAPSHOT_BLOCK_def apply_log_def
        ZERO_ADDRESS_def most_common_def valfilter_def)
  have p: "transfers_to_balances ?w ''0xp'' = [(''0xb'', 5), (''0xa'', - 5)]"
    by (simp add: transfers_single_block_world START_BLOCK_def SNAPSHOT_BLOCK_def apply_log_def
        ZERO_ADDRESS_def most_common_def valfilter_def)
  have s4: "step_04 ?w [(''0xq'', 4), (''0xp'', 7)] = Inr [(''0xq'', [(''0xp'', 4)])]"
    by (simp add: step_04_def q p is_uniswap_single_block_world dict_values_def pool_split_def
        pro_rata_share_int)
  have s5: "step_05 [(''0xq'', 4), (''0xp'', 7)] [(''0xq'', [(''0xp'', 4)])] = Inr [(''0xp'', 11)]"
    by (simp add: step_05_def dict_pop_def dict_keys_def add_all_def most_common_def)
  have z: "sum_list (dict_values (transfers_to_balances ?w ''0xp'')) = 0"
    by (simp add: p dict_values_def)
  from s4 z s5 show ?thesis by (intro conjI)
qed

section \<open>The abort of step\_01\<close>







end
